theory Spec2Isabelle
  imports Main "HOL-Library.Signed_Division"
begin

section \<open>C++ integers and failures\<close>

text \<open>
  The view computes with C++ \<open>int\<close>. Division truncates towards zero and the remainder
  takes the sign of the dividend (\<open>sdiv\<close>, \<open>smod\<close>); a zero divisor is undefined
  behaviour (the process traps), which the embedding makes a value: \<open>DivisionByZero\<close>.
  Calling through \<open>model()\<close> while no model is set dereferences a null pointer:
  \<open>NullModel\<close>. Pixel coordinates and row numbers are far from the 32-bit limits, so
  the integers are unbounded here and signed overflow is not modelled.
\<close>

datatype error = DivisionByZero | NullModel

definition bindE :: "error + 'a \<Rightarrow> ('a \<Rightarrow> error + 'b) \<Rightarrow> error + 'b" where
  "bindE m f = (case m of Inl e \<Rightarrow> Inl e | Inr a \<Rightarrow> f a)"

definition cdiv :: "int \<Rightarrow> int \<Rightarrow> error + int" where
  "cdiv a b = (if b = 0 then Inl DivisionByZero else Inr (a sdiv b))"

definition cmod :: "int \<Rightarrow> int \<Rightarrow> error + int" where
  "cmod a b = (if b = 0 then Inl DivisionByZero else Inr (a smod b))"

section \<open>QPoint and QRect\<close>

text \<open>
  Qt's \<open>QRect\<close> stores its left, top, right and bottom edges (\<open>x1\<close>, \<open>y1\<close>, \<open>x2\<close>, \<open>y2\<close>),
  all inclusive; \<open>QRect(x, y, w, h)\<close> has \<open>x2 = x + w - 1\<close> and \<open>y2 = y + h - 1\<close>, and the
  default \<open>QRect()\<close> is the null rectangle \<open>(0, 0, -1, -1)\<close>. The operations below follow
  the Qt 5 implementation of the members the view calls.
\<close>

record QPoint =
  xp :: int
  yp :: int

record QRect =
  x1 :: int
  y1 :: int
  x2 :: int
  y2 :: int

definition mkQRect :: "int \<Rightarrow> int \<Rightarrow> int \<Rightarrow> int \<Rightarrow> QRect" where
  "mkQRect x y w h = \<lparr>x1 = x, y1 = y, x2 = x + w - 1, y2 = y + h - 1\<rparr>"

definition nullQRect :: QRect where
  "nullQRect = \<lparr>x1 = 0, y1 = 0, x2 = - 1, y2 = - 1\<rparr>"

definition rectWidth :: "QRect \<Rightarrow> int" where
  "rectWidth r = x2 r - x1 r + 1"

definition rectHeight :: "QRect \<Rightarrow> int" where
  "rectHeight r = y2 r - y1 r + 1"

definition isNull :: "QRect \<Rightarrow> bool" where
  "isNull r = (x2 r = x1 r - 1 \<and> y2 r = y1 r - 1)"

definition topLeft :: "QRect \<Rightarrow> QPoint" where
  "topLeft r = \<lparr>xp = x1 r, yp = y1 r\<rparr>"

definition bottomRight :: "QRect \<Rightarrow> QPoint" where
  "bottomRight r = \<lparr>xp = x2 r, yp = y2 r\<rparr>"

definition center :: "QRect \<Rightarrow> QPoint" where
  "center r = \<lparr>xp = (x1 r + x2 r) sdiv 2, yp = (y1 r + y2 r) sdiv 2\<rparr>"

definition normalized :: "QRect \<Rightarrow> QRect" where
  "normalized r =
     (let (l, rr) = (if x2 r < x1 r - 1 then (x2 r, x1 r) else (x1 r, x2 r));
          (t, b) = (if y2 r < y1 r - 1 then (y2 r, y1 r) else (y1 r, y2 r))
      in \<lparr>x1 = l, y1 = t, x2 = rr, y2 = b\<rparr>)"

text \<open>The horizontal and the vertical extent of a rectangle as the binary members of
  \<open>QRect\<close> read them: a negative width or height swaps the two edges.\<close>

definition hspan :: "QRect \<Rightarrow> int \<times> int" where
  "hspan r = (if x2 r - x1 r + 1 < 0 then (x2 r, x1 r) else (x1 r, x2 r))"

definition vspan :: "QRect \<Rightarrow> int \<times> int" where
  "vspan r = (if y2 r - y1 r + 1 < 0 then (y2 r, y1 r) else (y1 r, y2 r))"

definition united :: "QRect \<Rightarrow> QRect \<Rightarrow> QRect" where
  "united a b =
     (if isNull a then b
      else if isNull b then a
      else (let (l1, r1) = hspan a; (l2, r2) = hspan b;
                (t1, b1) = vspan a; (t2, b2) = vspan b
            in \<lparr>x1 = min l1 l2, y1 = min t1 t2, x2 = max r1 r2, y2 = max b1 b2\<rparr>))"

definition intersects :: "QRect \<Rightarrow> QRect \<Rightarrow> bool" where
  "intersects a b =
     (if isNull a \<or> isNull b then False
      else (let (l1, r1) = hspan a; (l2, r2) = hspan b in
            if l1 > r2 \<or> l2 > r1 then False
            else (let (t1, b1) = vspan a; (t2, b2) = vspan b in
                  if t1 > b2 \<or> t2 > b1 then False else True)))"

definition contains :: "QRect \<Rightarrow> QRect \<Rightarrow> bool" where
  "contains a b =
     (if isNull a \<or> isNull b then False
      else (let (l1, r1) = hspan a; (l2, r2) = hspan b in
            if l2 < l1 \<or> r2 > r1 then False
            else (let (t1, b1) = vspan a; (t2, b2) = vspan b in
                  if t2 < t1 \<or> b2 > b1 then False else True)))"

section \<open>The image cache\<close>

text \<open>
  \<open>QCache<QString, QImage>\<close> owns heap images. An image pointer is \<open>None\<close> for
  \<open>nullptr\<close>; a \<open>QImage\<close> is either the null image (default constructed, or left by a
  failed \<open>load\<close>) or decoded pixel data, abstracted to a string. Every insertion of the
  view has cost 1, so the total cost is the number of entries. The entries are kept most
  recently used first; \<open>trim\<close> drops entries from the least recently used end while the
  total cost exceeds its bound. As in Qt 5, \<open>insert\<close> first removes the entry of the key,
  gives up when the cost 1 exceeds the bound, trims to make room for one entry and puts the
  new entry in front; \<open>take\<close> removes the entry and hands its pointer out; \<open>setMaxCost\<close>
  trims at once.
\<close>

datatype QImage = NullImage | ImageData string

type_synonym QImagePtr = "QImage option"

record QCache =
  entries :: "(string \<times> QImagePtr) list"
  maxCost :: int

definition cacheTrim :: "int \<Rightarrow> QCache \<Rightarrow> QCache" where
  "cacheTrim m c = c\<lparr>entries := take (nat m) (entries c)\<rparr>"

definition cacheRemove :: "string \<Rightarrow> QCache \<Rightarrow> QCache" where
  "cacheRemove k c = c\<lparr>entries := filter (\<lambda>e. fst e \<noteq> k) (entries c)\<rparr>"

definition cacheContains :: "QCache \<Rightarrow> string \<Rightarrow> bool" where
  "cacheContains c k = (k \<in> fst ` set (entries c))"

definition cacheTake :: "string \<Rightarrow> QCache \<Rightarrow> QImagePtr \<times> QCache" where
  "cacheTake k c =
     (case map_of (entries c) k of
        None \<Rightarrow> (None, c)
      | Some t \<Rightarrow> (t, cacheRemove k c))"

definition cacheInsert :: "string \<Rightarrow> QImagePtr \<Rightarrow> QCache \<Rightarrow> QCache" where
  "cacheInsert k img c =
     (let c1 = cacheRemove k c in
      if 1 > maxCost c1 then c1
      else (let c2 = cacheTrim (maxCost c1 - 1) c1
            in c2\<lparr>entries := (k, img) # entries c2\<rparr>))"

definition cacheSetMaxCost :: "int \<Rightarrow> QCache \<Rightarrow> QCache" where
  "cacheSetMaxCost m c = cacheTrim m (c\<lparr>maxCost := m\<rparr>)"

definition cacheClear :: "QCache \<Rightarrow> QCache" where
  "cacheClear c = c\<lparr>entries := []\<rparr>"

section \<open>The view\<close>

text \<open>
  The part of \<open>ImageListView\<close> and of the Qt widgets under it that the functions below
  read or write. The model is a list model: row \<open>i\<close> holds the file name of image \<open>i\<close>.
  \<open>loadEvents\<close> counts the values pushed into \<open>m_loadEventStream\<close>, \<open>updates\<close> lists the
  rectangles passed to \<open>viewport()->update\<close>, oldest first.
\<close>

record view =
  m_columnCount :: int
  m_imageCache :: QCache
  viewportWidth :: int
  viewportHeight :: int
  scrollValue :: int
  scrollMaximum :: int
  scrollPageStep :: int
  scrollSingleStep :: int
  scrollBarWidth :: int
  scrollBarVisible :: bool
  model :: "string list option"
  loadEvents :: nat
  updates :: "QRect list"

definition viewportRect :: "view \<Rightarrow> QRect" where
  "viewportRect v = mkQRect 0 0 (viewportWidth v) (viewportHeight v)"

definition horizontalOffset :: "view \<Rightarrow> int" where
  "horizontalOffset v = 0"

definition verticalOffset :: "view \<Rightarrow> int" where
  "verticalOffset v = scrollValue v"

definition rowCount :: "string list \<Rightarrow> int" where
  "rowCount rows = int (length rows)"

text \<open>\<open>model()->index(row, 0, rootIndex())\<close>: a valid index for a row of the model, the
  invalid index otherwise. A \<open>QModelIndex\<close> is its row, or \<open>None\<close> when invalid.\<close>

definition modelIndex :: "string list \<Rightarrow> int \<Rightarrow> int option" where
  "modelIndex rows i = (if 0 \<le> i \<and> i < rowCount rows then Some i else None)"

text \<open>\<open>model()->data(index).toString()\<close>: the file name of the row; the empty string for an
  invalid index.\<close>

definition modelData :: "string list \<Rightarrow> int option \<Rightarrow> string" where
  "modelData rows index = (case index of None \<Rightarrow> [] | Some i \<Rightarrow> rows ! nat i)"

section \<open>Tile geometry\<close>

text \<open>The linear tile index under a viewport point: the computation of \<open>i\<close> in \<open>indexAt\<close>,
  each division in the order the source performs it.\<close>

definition linearIndexAt :: "view \<Rightarrow> QPoint \<Rightarrow> error + int" where
  "linearIndexAt v point =
     (let p = \<lparr>xp = xp point + horizontalOffset v, yp = yp point + verticalOffset v\<rparr> in
      bindE (cdiv (viewportWidth v) (m_columnCount v)) (\<lambda>width.
        let height = min width (viewportHeight v) in
        bindE (cdiv (xp p) width) (\<lambda>c.
          bindE (cdiv (yp p) height) (\<lambda>r.
            Inr (r * m_columnCount v + c)))))"

definition indexAt :: "view \<Rightarrow> QPoint \<Rightarrow> error + int option" where
  "indexAt v point =
     (case model v of
        None \<Rightarrow> Inr None
      | Some rows \<Rightarrow>
          bindE (linearIndexAt v point) (\<lambda>i.
            if i \<ge> 0 \<and> i < rowCount rows then Inr (modelIndex rows i) else Inr None))"

definition visualRect :: "view \<Rightarrow> int option \<Rightarrow> error + QRect" where
  "visualRect v index =
     (case index of
        None \<Rightarrow> Inr nullQRect
      | Some row \<Rightarrow>
          bindE (cdiv row (m_columnCount v)) (\<lambda>r.
            bindE (cmod row (m_columnCount v)) (\<lambda>c.
              bindE (cdiv (viewportWidth v) (m_columnCount v)) (\<lambda>width.
                let height = min width (viewportHeight v);
                    x = c * width;
                    y = r * height
                in Inr (mkQRect (x - horizontalOffset v) (y - verticalOffset v) width height)))))"

definition modelIndexRangeForRect :: "view \<Rightarrow> QRect \<Rightarrow> error + (int \<times> int)" where
  "modelIndexRangeForRect v rect =
     (let r = normalized rect in
      case model v of
        None \<Rightarrow> Inl NullModel
      | Some rows \<Rightarrow>
          bindE (indexAt v (topLeft r)) (\<lambda>startIndex.
            let first = (case startIndex of Some i \<Rightarrow> i | None \<Rightarrow> 0) in
            bindE (indexAt v (bottomRight r)) (\<lambda>finishIndex.
              let last = (case finishIndex of Some i \<Rightarrow> i + 1 | None \<Rightarrow> rowCount rows)
              in Inr (first, last))))"

text \<open>The tile size every geometry function computes, named for the statements.\<close>

definition tileWidth :: "view \<Rightarrow> int" where
  "tileWidth v = viewportWidth v sdiv m_columnCount v"

definition tileHeight :: "view \<Rightarrow> int" where
  "tileHeight v = min (tileWidth v) (viewportHeight v)"

definition degenerate :: "view \<Rightarrow> bool" where
  "degenerate v = (m_columnCount v = 0 \<or> tileWidth v = 0 \<or> tileHeight v = 0)"

section \<open>The loading pipeline\<close>

text \<open>
  The constructor composes the pipeline from stream operators. Three of its stages are
  code of the view and run one at a time: the snapshot of the visible rows into tasks (on
  the UI thread), the decoding of one task (on a worker), and the delivery of one buffer of
  decoded tasks to the cache and the viewport (on the UI thread again). The operators
  between them (\<open>debounce\<close>, \<open>switch_on_next\<close>, \<open>buffer_with_time\<close>) belong to the stream
  library and run on its schedulers and timers; they are not embedded.
\<close>

record ImageLoadingTask =
  row :: int
  imageFileName :: string
  image :: QImagePtr

text \<open>The loop of the snapshot: one task per row, each taking its image out of the cache.\<close>

fun buildTasks :: "string list \<Rightarrow> int list \<Rightarrow> QCache \<Rightarrow> ImageLoadingTask list \<times> QCache" where
  "buildTasks rows [] c = ([], c)"
| "buildTasks rows (r # rs) c =
     (let fileName = modelData rows (modelIndex rows r);
          (imagePointer, c1) = cacheTake fileName c;
          imageLoadingTask = \<lparr>row = r, imageFileName = fileName, image = imagePointer\<rparr>;
          (taskList, c2) = buildTasks rows rs c1
      in (imageLoadingTask # taskList, c2))"

definition snapshot :: "view \<Rightarrow> error + (ImageLoadingTask list \<times> view)" where
  "snapshot v =
     bindE (modelIndexRangeForRect v (viewportRect v)) (\<lambda>modelRowRange.
       case model v of
         None \<Rightarrow> Inl NullModel
       | Some rows \<Rightarrow>
           (let (taskList, c) =
                  buildTasks rows [fst modelRowRange..snd modelRowRange - 1] (m_imageCache v)
            in Inr (taskList, v\<lparr>m_imageCache := c\<rparr>)))"

text \<open>
  Decoding one task. \<open>load\<close> stands for \<open>QImage::load\<close> on the files present: the image
  decoded from a file name, \<open>NullImage\<close> when the file cannot be read or decoded (\<open>load\<close>
  reports failure by its result and leaves the image null; it does not throw). The second
  component lists the file names \<open>load\<close> was called on.
\<close>

definition decode :: "(string \<Rightarrow> QImage) \<Rightarrow> ImageLoadingTask \<Rightarrow> ImageLoadingTask \<times> string list" where
  "decode load item =
     (let img = (case image item of None \<Rightarrow> NullImage | Some i \<Rightarrow> i) in
      if img = NullImage
      then (item\<lparr>image := Some (load (imageFileName item))\<rparr>, [imageFileName item])
      else (item\<lparr>image := Some img\<rparr>, []))"

definition decodeAll :: "(string \<Rightarrow> QImage) \<Rightarrow> ImageLoadingTask list \<Rightarrow> ImageLoadingTask list \<times> string list" where
  "decodeAll load taskList =
     (map (\<lambda>t. fst (decode load t)) taskList, concat (map (\<lambda>t. snd (decode load t)) taskList))"

text \<open>The loop of the subscriber: insert the image, unite the tile's rectangle.\<close>

fun applyItems :: "ImageLoadingTask list \<Rightarrow> view \<Rightarrow> QRect \<Rightarrow> error + (view \<times> QRect)" where
  "applyItems [] v invalidatingRect = Inr (v, invalidatingRect)"
| "applyItems (item # items) v invalidatingRect =
     (let v1 = v\<lparr>m_imageCache := cacheInsert (imageFileName item) (image item) (m_imageCache v)\<rparr>
      in case model v1 of
           None \<Rightarrow> Inl NullModel
         | Some rows \<Rightarrow>
             bindE (visualRect v1 (modelIndex rows (row item))) (\<lambda>itemRect.
               applyItems items v1 (united invalidatingRect itemRect)))"

definition applyBatch :: "view \<Rightarrow> ImageLoadingTask list \<Rightarrow> error + view" where
  "applyBatch v items =
     bindE (applyItems items v nullQRect) (\<lambda>(v1, invalidatingRect).
       if intersects (viewportRect v1) invalidatingRect
       then Inr (v1\<lparr>updates := updates v1 @ [invalidatingRect]\<rparr>)
       else Inr v1)"

text \<open>The filter before the subscriber drops empty buffers.\<close>

definition onBuffer :: "view \<Rightarrow> ImageLoadingTask list \<Rightarrow> error + view" where
  "onBuffer v items = (if items = [] then Inr v else applyBatch v items)"

text \<open>
  One undisturbed pass of the pipeline: a load event is snapshot, every task of it is
  decoded, and all of them arrive in one buffer. The result is the view afterwards and the
  file names \<open>load\<close> was called on.
\<close>

definition loadPass :: "(string \<Rightarrow> QImage) \<Rightarrow> view \<Rightarrow> error + (view \<times> string list)" where
  "loadPass load v =
     bindE (snapshot v) (\<lambda>(taskList, v1).
       let (items, loaded) = decodeAll load taskList in
       bindE (onBuffer v1 items) (\<lambda>v2. Inr (v2, loaded)))"

section \<open>Geometry updates, column count, reset\<close>

text \<open>\<open>QScrollBar::setRange(0, m)\<close>: the maximum is at least the minimum and the value is
  bounded to the new range.\<close>

definition setScrollRange :: "int \<Rightarrow> view \<Rightarrow> view" where
  "setScrollRange m v =
     v\<lparr>scrollMaximum := max 0 m, scrollValue := max 0 (min (scrollValue v) (max 0 m))\<rparr>"

definition updateGeometries :: "view \<Rightarrow> error + view" where
  "updateGeometries v =
     (let vpRect = viewportRect v;
          verticalScrollBarWidth = scrollBarWidth v;
          vpWidth = (if scrollBarVisible v then rectWidth vpRect + verticalScrollBarWidth
                     else rectWidth vpRect)
      in case model v of
           None \<Rightarrow> Inl NullModel
         | Some rows \<Rightarrow>
             (let modelRowCount = rowCount rows in
              bindE (cdiv modelRowCount (m_columnCount v)) (\<lambda>q.
              bindE (cmod modelRowCount (m_columnCount v)) (\<lambda>m.
                let viewportRowCount = q + (if m \<noteq> 0 then 1 else 0) in
                bindE (cdiv vpWidth (m_columnCount v)) (\<lambda>tw.
                  let th = min tw (rectHeight vpRect);
                      v1 = v\<lparr>m_imageCache :=
                             cacheSetMaxCost (viewportRowCount * m_columnCount v * 5) (m_imageCache v)\<rparr>
                  in if viewportRowCount * th > rectHeight vpRect
                     then (let vpWidth2 = vpWidth - verticalScrollBarWidth in
                           bindE (cdiv vpWidth2 (m_columnCount v)) (\<lambda>tw2.
                             let th2 = min tw2 (rectHeight vpRect);
                                 m0 = viewportRowCount * th2;
                                 verticalScrollBarMaximum =
                                   (if m0 < rectHeight vpRect then 1 else m0 - rectHeight vpRect)
                             in bindE (cdiv (rectHeight vpRect) th2) (\<lambda>k.
                                  let pageStep = k * th2;
                                      singleStep = th2 sdiv 2
                                  in Inr ((setScrollRange verticalScrollBarMaximum v1)
                                            \<lparr>scrollPageStep := pageStep,
                                             scrollSingleStep := singleStep\<rparr>))))
                     else Inr (setScrollRange 0 v1))))))"

text \<open>The page size \<open>moveCursor\<close> computes: the tile columns and the tile rows that fit in
  the viewport.\<close>

definition pageOffset :: "view \<Rightarrow> error + int" where
  "pageOffset v =
     (let viewRect = viewportRect v in
      bindE (cdiv (rectWidth viewRect) (m_columnCount v)) (\<lambda>tw.
        let th = min tw (rectHeight viewRect) in
        bindE (cdiv (rectWidth viewRect) tw) (\<lambda>viewColumnCount.
          bindE (cdiv (rectHeight viewRect) th) (\<lambda>viewRowCount.
            Inr (viewColumnCount * viewRowCount)))))"

definition emitLoadEvent :: "view \<Rightarrow> view" where
  "emitLoadEvent v = v\<lparr>loadEvents := Suc (loadEvents v)\<rparr>"

text \<open>\<open>QAbstractItemView::reset\<close>, called first, resets selection and editor state and
  schedules a layout; it touches none of the fields of \<open>view\<close>.\<close>

definition reset :: "view \<Rightarrow> view" where
  "reset v = emitLoadEvent (v\<lparr>m_imageCache := cacheClear (m_imageCache v)\<rparr>)"

definition setColumnCount :: "int \<Rightarrow> view \<Rightarrow> view" where
  "setColumnCount columnCount v = reset (v\<lparr>m_columnCount := columnCount\<rparr>)"

section \<open>What the specification says, for comparison\<close>

text \<open>The visible range in the specification's words: the index at the top left corner,
  0 when there is none; one past the index at the bottom right corner, the row count when
  there is none.\<close>

definition spec_rangeForRect :: "view \<Rightarrow> QRect \<Rightarrow> int \<Rightarrow> int \<times> int" where
  "spec_rangeForRect v r n =
     ((case indexAt v (topLeft r) of Inr (Some i) \<Rightarrow> i | _ \<Rightarrow> 0),
      (case indexAt v (bottomRight r) of Inr (Some i) \<Rightarrow> i + 1 | _ \<Rightarrow> n))"

text \<open>The visible tile capacity in the specification's words: the tile rows that fit in
  the viewport, times the column count.\<close>

definition spec_viewportRows :: "view \<Rightarrow> int" where
  "spec_viewportRows v = viewportHeight v sdiv tileHeight v"

definition spec_visibleCapacity :: "view \<Rightarrow> int" where
  "spec_visibleCapacity v = spec_viewportRows v * m_columnCount v"

section \<open>Example views\<close>

text \<open>A view as the constructor leaves it (cache bound 100, nothing loaded, scroll bar
  hidden) with a model set, the given column count, viewport size and scroll position.\<close>

definition gridView :: "int \<Rightarrow> int \<Rightarrow> int \<Rightarrow> int \<Rightarrow> string list \<Rightarrow> view" where
  "gridView n w h s rows =
     \<lparr>m_columnCount = n, m_imageCache = \<lparr>entries = [], maxCost = 100\<rparr>,
      viewportWidth = w, viewportHeight = h, scrollValue = s, scrollMaximum = 0,
      scrollPageStep = 0, scrollSingleStep = 0, scrollBarWidth = 0, scrollBarVisible = False,
      model = Some rows, loadEvents = 0, updates = []\<rparr>"

text \<open>A decoded task: row \<open>r\<close>, file name \<open>k\<close>, and the pixels of \<open>k\<close>.\<close>

definition loaded :: "int \<Rightarrow> string \<Rightarrow> ImageLoadingTask" where
  "loaded r k = \<lparr>row = r, imageFileName = k, image = Some (ImageData k)\<rparr>"

text \<open>A view of five columns, 500 by 200, with given cache entries and model rows; and a
  disk on which no file can be decoded.\<close>

definition cachedView :: "(string \<times> QImagePtr) list \<Rightarrow> string list \<Rightarrow> view" where
  "cachedView es rows = (gridView 5 500 200 0 rows)\<lparr>m_imageCache := \<lparr>entries = es, maxCost = 100\<rparr>\<rparr>"

definition noFiles :: "string \<Rightarrow> QImage" where
  "noFiles k = NullImage"

section \<open>Notions for the statements\<close>

text \<open>The pointer the cache holds under a key (\<open>None\<close>: no entry), read without touching
  the order of use.\<close>

definition cacheLookup :: "QCache \<Rightarrow> string \<Rightarrow> QImagePtr option" where
  "cacheLookup c k = map_of (entries c) k"

text \<open>The pointer \<open>take\<close> would return for a key: \<open>nullptr\<close> when there is no entry.\<close>

definition cachedImage :: "QCache \<Rightarrow> string \<Rightarrow> QImagePtr" where
  "cachedImage c k = (case cacheLookup c k of None \<Rightarrow> None | Some t \<Rightarrow> t)"

text \<open>The tile rectangles of a list of tasks, and the union the subscriber accumulates
  from the null rectangle.\<close>

definition tileRects :: "view \<Rightarrow> string list \<Rightarrow> ImageLoadingTask list \<Rightarrow> QRect list" where
  "tileRects v rows items =
     map (\<lambda>t. case visualRect v (modelIndex rows (row t)) of
                 Inr r \<Rightarrow> r | Inl e \<Rightarrow> nullQRect) items"

definition unitedAll :: "QRect list \<Rightarrow> QRect" where
  "unitedAll rs = foldl united nullQRect rs"

text \<open>A batch read as a dictionary, later tasks overriding earlier ones: the image
  pointer of the last task of the batch with the given file name.\<close>

definition batchImage :: "ImageLoadingTask list \<Rightarrow> string \<Rightarrow> QImagePtr option" where
  "batchImage items k = map_of (rev (map (\<lambda>t. (imageFileName t, image t)) items)) k"

section \<open>Truncating division\<close>

lemma sdiv_nonneg_pos: "0 \<le> a \<Longrightarrow> 0 < d \<Longrightarrow> (a::int) sdiv d = a div d"
  by (simp add: signed_divide_int_def sgn_if)

lemma sdiv_neg_pos: "a < 0 \<Longrightarrow> 0 < d \<Longrightarrow> (a::int) sdiv d = - ((- a) div d)"
  by (simp add: signed_divide_int_def sgn_if)

lemma sdiv_mono:
  assumes "(a::int) \<le> b" "0 < d"
  shows "a sdiv d \<le> b sdiv d"
proof (cases "a < 0"; cases "b < 0")
  assume "a < 0" "b < 0"
  with assms have "(- b) div d \<le> (- a) div d" by (intro zdiv_mono1) auto
  with \<open>a < 0\<close> \<open>b < 0\<close> assms show ?thesis by (simp add: sdiv_neg_pos)
next
  assume "a < 0" "\<not> b < 0"
  then have "a sdiv d \<le> 0" "0 \<le> b sdiv d" using assms
    by (simp_all add: sdiv_neg_pos sdiv_nonneg_pos pos_imp_zdiv_nonneg_iff)
  then show ?thesis by simp
next
  assume "\<not> a < 0" "b < 0"
  with assms show ?thesis by simp
next
  assume "\<not> a < 0" "\<not> b < 0"
  with assms show ?thesis by (simp add: sdiv_nonneg_pos zdiv_mono1)
qed

lemma sdiv_two_bounds: "k - 1 \<le> 2 * ((k::int) sdiv 2) \<and> 2 * (k sdiv 2) \<le> k + 1"
  by (cases "k < 0") (simp_all add: sdiv_neg_pos sdiv_nonneg_pos, presburger+)

lemma sdiv_in_tile:
  assumes "0 < d" "q * d \<le> m" "m < q * d + d" "0 \<le> q"
  shows "(m::int) sdiv d = q"
proof -
  have "0 \<le> q * d" using assms by simp
  then have m0: "0 \<le> m" using assms by linarith
  have "m div d = q"
  proof (rule int_div_pos_eq [of m d q "m - q * d"])
    show "m = d * q + (m - q * d)" by (simp add: mult.commute)
    show "0 \<le> m - q * d" using assms by simp
    show "m - q * d < d" using assms by simp
  qed
  then show ?thesis using m0 assms by (simp add: sdiv_nonneg_pos)
qed

section \<open>Tile geometry: closed forms\<close>

lemma tile_size_pos:
  assumes "1 \<le> m_columnCount v" "m_columnCount v \<le> viewportWidth v" "1 \<le> viewportHeight v"
  shows "1 \<le> tileWidth v" "1 \<le> tileHeight v"
proof -
  have "viewportWidth v sdiv m_columnCount v = viewportWidth v div m_columnCount v"
    using assms by (simp add: sdiv_nonneg_pos)
  moreover have "0 < viewportWidth v div m_columnCount v"
    using assms by (simp add: pos_imp_zdiv_pos_iff)
  ultimately show "1 \<le> tileWidth v" by (simp add: tileWidth_def)
  then show "1 \<le> tileHeight v" using assms by (simp add: tileHeight_def)
qed

lemma linearIndexAt_tiles:
  assumes "m_columnCount v \<noteq> 0" "tileWidth v \<noteq> 0" "tileHeight v \<noteq> 0"
  shows "linearIndexAt v p =
    Inr (((yp p + scrollValue v) sdiv tileHeight v) * m_columnCount v + xp p sdiv tileWidth v)"
  using assms
  by (simp add: linearIndexAt_def bindE_def cdiv_def tileWidth_def tileHeight_def
      horizontalOffset_def verticalOffset_def Let_def)

lemma linearIndexAt_degenerate:
  "degenerate v \<Longrightarrow> linearIndexAt v p = Inl DivisionByZero"
  by (auto simp add: degenerate_def linearIndexAt_def bindE_def cdiv_def tileWidth_def
      tileHeight_def Let_def)

lemma indexAt_total:
  assumes "model v = Some rows" "\<not> degenerate v"
  shows "indexAt v p =
    Inr (let i = ((yp p + scrollValue v) sdiv tileHeight v) * m_columnCount v
                   + xp p sdiv tileWidth v
         in if 0 \<le> i \<and> i < rowCount rows then Some i else None)"
  using assms
  by (simp add: indexAt_def degenerate_def linearIndexAt_tiles bindE_def modelIndex_def Let_def)

lemma visualRect_tiles:
  assumes "m_columnCount v \<noteq> 0"
  shows "visualRect v (Some i) =
    Inr (mkQRect ((i smod m_columnCount v) * tileWidth v)
                 ((i sdiv m_columnCount v) * tileHeight v - scrollValue v)
                 (tileWidth v) (tileHeight v))"
  using assms
  by (simp add: visualRect_def bindE_def cdiv_def cmod_def tileWidth_def tileHeight_def
      horizontalOffset_def verticalOffset_def Let_def)

section \<open>Degenerate geometry\<close>

text \<open>
  Claim C3 (as amended). The claim asks that a zero column count or a zero tile size gives
  an invalid index and an empty range instead of a division by zero. The source divides
  without a guard. With a model set, \<open>indexAt\<close> and \<open>modelIndexRangeForRect\<close> divide by
  zero exactly when the column count, the tile width or the tile height is 0; in every
  other geometry both return: \<open>indexAt\<close> the invalid index or a row of the model,
  \<open>modelIndexRangeForRect\<close> a pair of rows.
\<close>

theorem division_by_zero_iff_degenerate:
  assumes "model v = Some rows"
  shows "if degenerate v
         then indexAt v p = Inl DivisionByZero \<and>
              modelIndexRangeForRect v rect = Inl DivisionByZero
         else (\<exists>i. indexAt v p = Inr i \<and>
                 (case i of None \<Rightarrow> True | Some k \<Rightarrow> 0 \<le> k \<and> k < rowCount rows)) \<and>
              (\<exists>first last. modelIndexRangeForRect v rect = Inr (first, last))"
proof (cases "degenerate v")
  case True
  then show ?thesis using assms
    by (simp add: indexAt_def modelIndexRangeForRect_def linearIndexAt_degenerate bindE_def Let_def)
next
  case False
  then show ?thesis using assms
    by (simp add: indexAt_total modelIndexRangeForRect_def bindE_def Let_def)
qed

theorem division_by_zero_iff_degenerate_witness:
  "model (gridView 5 500 200 0 (replicate 12 ''img'')) = Some (replicate 12 ''img'') \<and>
   \<not> degenerate (gridView 5 500 200 0 (replicate 12 ''img'')) \<and>
   (\<exists>i. indexAt (gridView 5 500 200 0 (replicate 12 ''img'')) \<lparr>xp = 250, yp = 150\<rparr> = Inr i) \<and>
   (\<exists>first last. modelIndexRangeForRect (gridView 5 500 200 0 (replicate 12 ''img''))
       (mkQRect 0 0 500 200) = Inr (first, last))"
proof -
  have m: "model (gridView 5 500 200 0 (replicate 12 ''img'')) = Some (replicate 12 ''img'')"
    by (simp add: gridView_def)
  have d: "\<not> degenerate (gridView 5 500 200 0 (replicate 12 ''img''))"
    by (simp add: degenerate_def gridView_def tileWidth_def tileHeight_def)
  from division_by_zero_iff_degenerate [OF m, of "\<lparr>xp = 250, yp = 150\<rparr>" "mkQRect 0 0 500 200"] d m
  show ?thesis by auto
qed

text \<open>The claim as stated fails: a viewport of width 0 with five columns, and a column
  count of 0, both end in the division by zero.\<close>

theorem degenerate_geometry_counterexample:
  "indexAt (gridView 5 0 200 0 (replicate 12 ''img'')) \<lparr>xp = 0, yp = 0\<rparr> = Inl DivisionByZero \<and>
   modelIndexRangeForRect (gridView 5 0 200 0 (replicate 12 ''img'')) (mkQRect 0 0 0 200)
     = Inl DivisionByZero \<and>
   indexAt (gridView 0 500 200 0 (replicate 12 ''img'')) \<lparr>xp = 0, yp = 0\<rparr> = Inl DivisionByZero"
  by (simp add: indexAt_def modelIndexRangeForRect_def linearIndexAt_def gridView_def bindE_def
      cdiv_def Let_def)

section \<open>Geometry round trip\<close>

lemma center_column:
  assumes "0 \<le> c" "1 \<le> w"
  shows "((c * w + (c * w + w - 1)) sdiv 2) sdiv w = (c::int)"
proof (rule sdiv_in_tile)
  let ?k = "c * w + (c * w + w - 1)"
  have b: "?k - 1 \<le> 2 * (?k sdiv 2)" "2 * (?k sdiv 2) \<le> ?k + 1"
    using sdiv_two_bounds [of ?k] by simp_all
  show "0 < w" using assms by simp
  show "c * w \<le> ?k sdiv 2" using b assms by linarith
  show "?k sdiv 2 < c * w + w" using b assms by linarith
  show "0 \<le> c" by fact
qed

lemma center_row:
  assumes "0 \<le> r" "1 \<le> h"
  shows "(((r * h - s) + (r * h - s + h - 1)) sdiv 2 + s) sdiv h = (r::int)"
proof (rule sdiv_in_tile)
  let ?k = "(r * h - s) + (r * h - s + h - 1)"
  have b: "?k - 1 \<le> 2 * (?k sdiv 2)" "2 * (?k sdiv 2) \<le> ?k + 1"
    using sdiv_two_bounds [of ?k] by simp_all
  show "0 < h" using assms by simp
  show "r * h \<le> ?k sdiv 2 + s" using b assms by linarith
  show "?k sdiv 2 + s < r * h + h" using b assms by linarith
  show "0 \<le> r" by fact
qed




section \<open>Column count and reset\<close>

text \<open>
  Claim C10. For every column count, \<open>setColumnCount\<close> stores it, leaves the image cache
  without any entry and pushes exactly one load event; the cache bound and the rest of the
  view are as before.
\<close>

theorem setColumnCount_clears_cache:
  "entries (m_imageCache (setColumnCount n v)) = [] \<and>
   \<not> cacheContains (m_imageCache (setColumnCount n v)) k \<and>
   loadEvents (setColumnCount n v) = Suc (loadEvents v) \<and>
   m_columnCount (setColumnCount n v) = n \<and>
   maxCost (m_imageCache (setColumnCount n v)) = maxCost (m_imageCache v) \<and>
   setColumnCount n v = v\<lparr>m_columnCount := n,
      m_imageCache := (m_imageCache v)\<lparr>entries := []\<rparr>, loadEvents := Suc (loadEvents v)\<rparr>"
  by (simp add: setColumnCount_def reset_def emitLoadEvent_def cacheClear_def cacheContains_def)

section \<open>The visible range\<close>

lemma sdiv_pred:
  assumes "0 < w" shows "(x::int) sdiv w - 1 \<le> (x - 1) sdiv w"
proof -
  have "(x - w) sdiv w \<le> (x - 1) sdiv w" using assms by (intro sdiv_mono) auto
  moreover have "x sdiv w - 1 \<le> (x - w) sdiv w"
  proof (cases "x < 0")
    case True
    then have "(x - w) sdiv w = - ((- x + w) div w)" using assms by (simp add: sdiv_neg_pos)
    also have "(- x + w) div w = (- x) div w + 1" using assms by (intro div_add_self2) simp
    finally show ?thesis using True assms by (simp add: sdiv_neg_pos)
  next
    case False
    show ?thesis
    proof (cases "x < w")
      case True
      then have "x sdiv w = 0" using False assms by (simp add: sdiv_nonneg_pos)
      moreover have "(w - x) div w \<le> w div w" using assms False by (intro zdiv_mono1) auto
      then have "- 1 \<le> (x - w) sdiv w" using True assms by (simp add: sdiv_neg_pos)
      ultimately show ?thesis by simp
    next
      case F2: False
      then have "(x - w) sdiv w = (x - w) div w" using assms by (simp add: sdiv_nonneg_pos)
      also have "\<dots> = x div w - 1" using assms div_add_self2 [of w "x - w"] by simp
      finally show ?thesis using False assms by (simp add: sdiv_nonneg_pos)
    qed
  qed
  ultimately show ?thesis by linarith
qed

lemma hspan_normalized: "hspan r = (x1 (normalized r), x2 (normalized r))"
  by (simp add: hspan_def normalized_def Let_def)

lemma vspan_normalized: "vspan r = (y1 (normalized r), y2 (normalized r))"
  by (simp add: vspan_def normalized_def Let_def)

lemma contains_corners:
  assumes "contains a b"
  shows "x1 (normalized a) \<le> x1 (normalized b)" "x2 (normalized b) \<le> x2 (normalized a)"
        "y1 (normalized a) \<le> y1 (normalized b)" "y2 (normalized b) \<le> y2 (normalized a)"
  using assms
  by (simp_all add: contains_def hspan_normalized vspan_normalized Let_def split: if_splits)

lemma tile_index_mono:
  assumes "1 \<le> (n::int)" "1 \<le> w" "1 \<le> h" "x \<le> x'" "y \<le> y'"
  shows "(y sdiv h) * n + x sdiv w \<le> (y' sdiv h) * n + x' sdiv w"
proof -
  have "y sdiv h \<le> y' sdiv h" "x sdiv w \<le> x' sdiv w" using assms by (simp_all add: sdiv_mono)
  moreover from this assms have "(y sdiv h) * n \<le> (y' sdiv h) * n" by (simp add: mult_right_mono)
  ultimately show ?thesis by linarith
qed

lemma range_closed_form:
  assumes m: "model v = Some rows"
    and g: "1 \<le> m_columnCount v" "m_columnCount v \<le> viewportWidth v" "1 \<le> viewportHeight v"
    and a: "linearIndexAt v (topLeft (normalized rect)) = Inr a"
    and b: "linearIndexAt v (bottomRight (normalized rect)) = Inr b"
  shows "modelIndexRangeForRect v rect =
     Inr (if 0 \<le> a \<and> a < rowCount rows then a else 0,
          if 0 \<le> b \<and> b < rowCount rows then b + 1 else rowCount rows)"
  using m a b
  by (simp add: modelIndexRangeForRect_def indexAt_def bindE_def modelIndex_def Let_def)

lemma linearIndexAt_mono:
  assumes g: "1 \<le> m_columnCount v" "m_columnCount v \<le> viewportWidth v" "1 \<le> viewportHeight v"
    and p: "xp p \<le> xp q" "yp p \<le> yp q"
    and a: "linearIndexAt v p = Inr a" and b: "linearIndexAt v q = Inr b"
  shows "a \<le> b"
proof -
  have w: "1 \<le> tileWidth v" and h: "1 \<le> tileHeight v" using tile_size_pos [OF g] by simp_all
  have "((yp p + scrollValue v) sdiv tileHeight v) * m_columnCount v + xp p sdiv tileWidth v
      \<le> ((yp q + scrollValue v) sdiv tileHeight v) * m_columnCount v + xp q sdiv tileWidth v"
    using g w h p by (intro tile_index_mono) auto
  then show ?thesis using a b g w h by (simp add: linearIndexAt_tiles)
qed

lemma linearIndexAt_returns:
  assumes g: "1 \<le> m_columnCount v" "m_columnCount v \<le> viewportWidth v" "1 \<le> viewportHeight v"
  shows "\<exists>a. linearIndexAt v p = Inr a"
  using g tile_size_pos [OF g] by (simp add: linearIndexAt_tiles)







section \<open>Cache capacity\<close>

lemma setScrollRange_cache [simp]: "m_imageCache (setScrollRange m v) = m_imageCache v"
  by (simp add: setScrollRange_def)

lemma updateGeometries_maxCost:
  assumes "updateGeometries v = Inr v'" "model v = Some rows"
  shows "maxCost (m_imageCache v') =
     (rowCount rows sdiv m_columnCount v
        + (if rowCount rows smod m_columnCount v \<noteq> 0 then 1 else 0)) * m_columnCount v * 5"
  using assms
  by (auto simp add: updateGeometries_def bindE_def cdiv_def cmod_def Let_def cacheSetMaxCost_def
      cacheTrim_def split: if_splits sum.splits)

text \<open>
  Claim C2. The source comments the call as setting the cache size to five times the
  capacity of the viewport, but the row count it multiplies is the number of tile rows the
  whole model needs, whatever the viewport's height. In the specification's own scenario
  (12 rows, 5 columns, a viewport of two tile rows) \<open>updateGeometries\<close> sets the bound to
  75, where five times the visible capacity, 2 rows of 5, is 50; \<open>moveCursor\<close> computes the
  page of 10 visible tiles for the same view.
\<close>

theorem updateGeometries_counts_model_rows:
  "\<exists>v'. updateGeometries (gridView 5 500 200 0 (replicate 12 ''img'')) = Inr v' \<and>
     maxCost (m_imageCache v') = 75 \<and>
     spec_viewportRows (gridView 5 500 200 0 (replicate 12 ''img'')) = 2 \<and>
     5 * spec_visibleCapacity (gridView 5 500 200 0 (replicate 12 ''img'')) = 50 \<and>
     pageOffset (gridView 5 500 200 0 (replicate 12 ''img'')) = Inr 10"
  by (simp add: updateGeometries_def gridView_def viewportRect_def mkQRect_def rectWidth_def
      rectHeight_def rowCount_def bindE_def cdiv_def cmod_def Let_def cacheSetMaxCost_def
      cacheTrim_def setScrollRange_def spec_visibleCapacity_def spec_viewportRows_def
      tileHeight_def tileWidth_def pageOffset_def signed_modulo_int_def)

section \<open>Applying a buffer\<close>

lemma visualRect_cache [simp]: "visualRect (v\<lparr>m_imageCache := c\<rparr>) i = visualRect v i"
  by (cases i) (simp_all add: visualRect_def horizontalOffset_def verticalOffset_def)

lemma tileRects_cache [simp]: "tileRects (v\<lparr>m_imageCache := c\<rparr>) rows items = tileRects v rows items"
  by (simp add: tileRects_def)

lemma viewportRect_cache [simp]: "viewportRect (v\<lparr>m_imageCache := c\<rparr>) = viewportRect v"
  by (simp add: viewportRect_def)

lemma visualRect_returns:
  assumes "m_columnCount v \<noteq> 0"
  shows "\<exists>r. visualRect v i = Inr r"
  using assms by (cases i) (simp_all add: visualRect_def bindE_def cdiv_def cmod_def Let_def)

lemma applyItems_closed_form:
  assumes "model v = Some rows" "m_columnCount v \<noteq> 0"
  shows "applyItems items v acc =
     Inr (v\<lparr>m_imageCache :=
              foldl (\<lambda>c t. cacheInsert (imageFileName t) (image t) c) (m_imageCache v) items\<rparr>,
          foldl united acc (tileRects v rows items))"
  using assms
proof (induction items arbitrary: v acc)
  case Nil
  then show ?case by (simp add: tileRects_def)
next
  case (Cons item items)
  let ?v1 = "v\<lparr>m_imageCache := cacheInsert (imageFileName item) (image item) (m_imageCache v)\<rparr>"
  obtain r where r: "visualRect v (modelIndex rows (row item)) = Inr r"
    using visualRect_returns [OF Cons.prems(2)] by blast
  have "model ?v1 = Some rows" "m_columnCount ?v1 \<noteq> 0" using Cons.prems by simp_all
  note ih = Cons.IH [OF this]
  have tr: "tileRects v rows (item # items) = r # tileRects v rows items"
    using r by (simp add: tileRects_def)
  show ?case
    using Cons.prems(1) r by (simp add: Let_def bindE_def ih tr)
qed

lemma isNull_spans: "isNull r = (snd (hspan r) = fst (hspan r) - 1 \<and> snd (vspan r) = fst (vspan r) - 1)"
  by (auto simp add: isNull_def hspan_def vspan_def)

lemma hspan_ordered: "fst (hspan r) - 1 \<le> snd (hspan r)"
  by (simp add: hspan_def)

lemma vspan_ordered: "fst (vspan r) - 1 \<le> snd (vspan r)"
  by (simp add: vspan_def)

lemma hspan_edges: "l - 1 \<le> r \<Longrightarrow> hspan \<lparr>x1 = l, y1 = t, x2 = r, y2 = b\<rparr> = (l, r)"
  by (simp add: hspan_def)

lemma vspan_edges: "t - 1 \<le> b \<Longrightarrow> vspan \<lparr>x1 = l, y1 = t, x2 = r, y2 = b\<rparr> = (t, b)"
  by (simp add: vspan_def)

lemma united_spans:
  assumes "\<not> isNull a" "\<not> isNull b"
  shows "hspan (united a b) = (min (fst (hspan a)) (fst (hspan b)), max (snd (hspan a)) (snd (hspan b)))"
    and "vspan (united a b) = (min (fst (vspan a)) (fst (vspan b)), max (snd (vspan a)) (snd (vspan b)))"
proof -
  obtain l1 r1 l2 r2 t1 b1 t2 b2 where s: "hspan a = (l1, r1)" "hspan b = (l2, r2)"
      "vspan a = (t1, b1)" "vspan b = (t2, b2)"
    by (metis surj_pair)
  have o: "l1 - 1 \<le> r1" "l2 - 1 \<le> r2" "t1 - 1 \<le> b1" "t2 - 1 \<le> b2"
    using hspan_ordered [of a] hspan_ordered [of b] vspan_ordered [of a] vspan_ordered [of b] s
    by simp_all
  have u: "united a b = \<lparr>x1 = min l1 l2, y1 = min t1 t2, x2 = max r1 r2, y2 = max b1 b2\<rparr>"
    using assms s by (simp add: united_def)
  have h: "min l1 l2 - 1 \<le> max r1 r2" and v: "min t1 t2 - 1 \<le> max b1 b2"
    using o by linarith+
  show "hspan (united a b) = (min (fst (hspan a)) (fst (hspan b)), max (snd (hspan a)) (snd (hspan b)))"
    by (simp add: u s hspan_edges [OF h])
  show "vspan (united a b) = (min (fst (vspan a)) (fst (vspan b)), max (snd (vspan a)) (snd (vspan b)))"
    by (simp add: u s vspan_edges [OF v])
qed

lemma united_not_null:
  assumes "\<not> isNull a \<or> \<not> isNull b"
  shows "\<not> isNull (united a b)"
proof (cases "isNull a \<or> isNull b")
  case True
  then show ?thesis using assms by (auto simp add: united_def)
next
  case False
  then have n: "\<not> isNull a" "\<not> isNull b" by simp_all
  show ?thesis
    using n hspan_ordered [of a] hspan_ordered [of b] vspan_ordered [of a] vspan_ordered [of b]
    by (simp add: isNull_spans [of "united a b"] united_spans [OF n])
       (simp add: isNull_spans, linarith)
qed

lemma contains_spans:
  "contains a b = (\<not> isNull a \<and> \<not> isNull b \<and>
     fst (hspan a) \<le> fst (hspan b) \<and> snd (hspan b) \<le> snd (hspan a) \<and>
     fst (vspan a) \<le> fst (vspan b) \<and> snd (vspan b) \<le> snd (vspan a))"
  by (auto simp add: contains_def Let_def split: prod.splits)

lemma contains_trans: "contains a b \<Longrightarrow> contains b c \<Longrightarrow> contains a c"
  by (auto simp add: contains_spans)

lemma contains_united_left: "\<not> isNull a \<Longrightarrow> contains (united a b) a"
proof (cases "isNull b")
  case True
  assume "\<not> isNull a"
  then show ?thesis using True by (simp add: united_def contains_spans)
next
  case False
  assume a: "\<not> isNull a"
  show ?thesis
    using united_not_null [of a b] a by (simp add: contains_spans united_spans [OF a False])
qed

lemma contains_united_right: "\<not> isNull b \<Longrightarrow> contains (united a b) b"
proof (cases "isNull a")
  case True
  assume "\<not> isNull b"
  then show ?thesis using True by (simp add: united_def contains_spans)
next
  case False
  assume b: "\<not> isNull b"
  show ?thesis
    using united_not_null [of a b] b by (simp add: contains_spans united_spans [OF False b])
qed

lemma foldl_united_contains_start:
  "\<not> isNull a \<Longrightarrow> contains (foldl united a rs) a"
proof (induction rs arbitrary: a)
  case Nil
  then show ?case by (simp add: contains_spans)
next
  case (Cons r rs)
  have "\<not> isNull (united a r)" using Cons.prems by (simp add: united_not_null)
  then have "contains (foldl united (united a r) rs) (united a r)" by (rule Cons.IH)
  moreover have "contains (united a r) a" using Cons.prems by (rule contains_united_left)
  ultimately show ?case by (simp add: contains_trans)
qed

lemma foldl_united_contains_member:
  "r \<in> set rs \<Longrightarrow> \<not> isNull r \<Longrightarrow> contains (foldl united a rs) r"
proof (induction rs arbitrary: a)
  case Nil
  then show ?case by simp
next
  case (Cons x rs)
  show ?case
  proof (cases "r = x")
    case True
    have "\<not> isNull (united a x)" using Cons.prems True by (simp add: united_not_null)
    then have "contains (foldl united (united a x) rs) (united a x)"
      by (rule foldl_united_contains_start)
    moreover have "contains (united a x) r" using Cons.prems True by (simp add: contains_united_right)
    ultimately show ?thesis by (simp add: contains_trans)
  next
    case False
    then have "r \<in> set rs" using Cons.prems by simp
    then show ?thesis using Cons.prems by (simp add: Cons.IH)
  qed
qed

lemma cacheInsert_entries:
  assumes "1 \<le> maxCost c"
  shows "entries (cacheInsert k img c) =
     (k, img) # take (nat (maxCost c - 1)) (filter (\<lambda>e. fst e \<noteq> k) (entries c))"
  using assms by (simp add: cacheInsert_def cacheRemove_def cacheTrim_def Let_def)

lemma cacheInsert_maxCost [simp]: "maxCost (cacheInsert k img c) = maxCost c"
  by (simp add: cacheInsert_def cacheRemove_def cacheTrim_def Let_def)

lemma foldl_cacheInsert_maxCost [simp]:
  "maxCost (foldl (\<lambda>c t. cacheInsert (imageFileName t) (image t) c) c items) = maxCost c"
  by (induction items arbitrary: c) simp_all

lemma map_of_take_Suc:
  "map_of (take m es) k = Some x \<Longrightarrow> map_of (take (Suc m) es) k = Some x"
proof (induction es arbitrary: m)
  case Nil
  then show ?case by simp
next
  case (Cons e es)
  then show ?case by (cases m) (auto split: if_splits)
qed

lemma map_of_take_filter:
  "map_of (take m es) k = Some x \<Longrightarrow> k \<noteq> k' \<Longrightarrow>
   map_of (take m (filter (\<lambda>e. fst e \<noteq> k') es)) k = Some x"
proof (induction es arbitrary: m)
  case Nil
  then show ?case by simp
next
  case (Cons e es)
  show ?case
  proof (cases m)
    case 0
    then show ?thesis using Cons.prems by simp
  next
    case (Suc n)
    show ?thesis
    proof (cases "fst e = k")
      case True
      then show ?thesis using Cons.prems Suc by (cases e) auto
    next
      case False
      then have t: "map_of (take n es) k = Some x" using Cons.prems Suc by (cases e) auto
      have ih: "map_of (take n (filter (\<lambda>e. fst e \<noteq> k') es)) k = Some x"
        using Cons.IH [OF t Cons.prems(2)] .
      show ?thesis
      proof (cases "fst e = k'")
        case True
        then show ?thesis using Suc map_of_take_Suc [OF ih] by simp
      next
        case F: False
        then show ?thesis using Suc ih False by (cases e) auto
      qed
    qed
  qed
qed

lemma map_of_take_whole:
  "map_of (take m es) k = Some x \<Longrightarrow> map_of es k = Some x"
proof (induction es arbitrary: m)
  case Nil
  then show ?case by simp
next
  case (Cons e es)
  then show ?case by (cases m) (auto split: if_splits)
qed

lemma foldl_cacheInsert_front:
  assumes "int m + int (length items) \<le> maxCost c"
    and "\<forall>k \<in> fst ` set D. map_of (take m (entries c)) k = map_of D k"
  shows "\<forall>k \<in> fst ` set D \<union> imageFileName ` set items.
     cacheLookup (foldl (\<lambda>c t. cacheInsert (imageFileName t) (image t) c) c items) k
       = map_of (rev (map (\<lambda>t. (imageFileName t, image t)) items) @ D) k"
  using assms
proof (induction items arbitrary: c m D)
  case Nil
  show ?case
  proof
    fix k assume k: "k \<in> fst ` set D \<union> imageFileName ` set []"
    then have kd: "k \<in> fst ` set D" by simp
    then obtain x where x: "map_of D k = Some x"
      by (metis domD dom_map_of_conv_image_fst)
    with bspec [OF Nil.prems(2) kd] have "map_of (take m (entries c)) k = Some x" by simp
    then have "map_of (entries c) k = Some x" by (rule map_of_take_whole)
    then show "cacheLookup (foldl (\<lambda>c t. cacheInsert (imageFileName t) (image t) c) c []) k
       = map_of (rev (map (\<lambda>t. (imageFileName t, image t)) []) @ D) k"
      using x by (simp add: cacheLookup_def)
  qed
next
  case (Cons t items)
  let ?k = "imageFileName t"
  let ?c = "cacheInsert ?k (image t) c"
  let ?D = "(?k, image t) # D"
  have mx: "1 \<le> maxCost c" and m: "m \<le> nat (maxCost c - 1)" using Cons.prems(1) by simp_all
  have e: "entries ?c = (?k, image t) # take (nat (maxCost c - 1)) (filter (\<lambda>e. fst e \<noteq> ?k) (entries c))"
    using mx by (rule cacheInsert_entries)
  have tk: "take (Suc m) (entries ?c) = (?k, image t) # take m (filter (\<lambda>e. fst e \<noteq> ?k) (entries c))"
    using m by (simp add: e min_def)
  have inv: "\<forall>k \<in> fst ` set ?D. map_of (take (Suc m) (entries ?c)) k = map_of ?D k"
  proof
    fix k assume k: "k \<in> fst ` set ?D"
    show "map_of (take (Suc m) (entries ?c)) k = map_of ?D k"
    proof (cases "k = ?k")
      case True
      then show ?thesis by (simp add: tk)
    next
      case False
      then have kd: "k \<in> fst ` set D" using k by auto
      then obtain x where x: "map_of D k = Some x"
        by (metis domD dom_map_of_conv_image_fst)
      with bspec [OF Cons.prems(2) kd] have "map_of (take m (entries c)) k = Some x" by simp
      then have "map_of (take m (filter (\<lambda>e. fst e \<noteq> ?k) (entries c))) k = Some x"
        using False by (rule map_of_take_filter)
      then show ?thesis using False x by (simp add: tk)
    qed
  qed
  have sz: "int (Suc m) + int (length items) \<le> maxCost ?c" using Cons.prems(1) by simp
  have "\<forall>k \<in> fst ` set ?D \<union> imageFileName ` set items.
     cacheLookup (foldl (\<lambda>c t. cacheInsert (imageFileName t) (image t) c) ?c items) k
       = map_of (rev (map (\<lambda>t. (imageFileName t, image t)) items) @ ?D) k"
    using sz inv by (rule Cons.IH)
  then show ?case by auto
qed

lemma foldl_cacheInsert_lookup:
  assumes "int (length items) \<le> maxCost c" "t \<in> set items"
  shows "cacheLookup (foldl (\<lambda>c t. cacheInsert (imageFileName t) (image t) c) c items)
           (imageFileName t) = batchImage items (imageFileName t)"
  using foldl_cacheInsert_front [of 0 items c "[]"] assms by (simp add: batchImage_def)

text \<open>
  Claim C7. With a model set and a column count other than 0 (otherwise the subscriber
  fails in \<open>visualRect\<close>), delivering a buffer of tasks to the subscriber returns, and:
  the cache is the old one after one \<open>insert\<close> per task, in order, of the task's image
  under its file name; the list of viewport updates grows by exactly one rectangle, the
  union of the tasks' tile rectangles, when that union intersects the viewport rectangle,
  and by nothing otherwise. The union contains every tile rectangle that is not null; and
  when the buffer is no longer than the cache's bound, each file name of the buffer is in
  the cache afterwards with the image of its last task.
\<close>

theorem batch_applied_with_one_update:
  assumes m: "model v = Some rows" and n: "m_columnCount v \<noteq> 0"
  shows "applyBatch v items =
           Inr (v\<lparr>m_imageCache :=
                    foldl (\<lambda>c t. cacheInsert (imageFileName t) (image t) c) (m_imageCache v) items,
                  updates := updates v @
                    (if intersects (viewportRect v) (unitedAll (tileRects v rows items))
                     then [unitedAll (tileRects v rows items)] else [])\<rparr>) \<and>
         (\<forall>r \<in> set (tileRects v rows items).
            \<not> isNull r \<longrightarrow> contains (unitedAll (tileRects v rows items)) r) \<and>
         (int (length items) \<le> maxCost (m_imageCache v) \<longrightarrow>
            (\<forall>t \<in> set items.
               cacheLookup (foldl (\<lambda>c t. cacheInsert (imageFileName t) (image t) c)
                              (m_imageCache v) items) (imageFileName t)
                 = batchImage items (imageFileName t)))"
proof (intro conjI)
  show "applyBatch v items =
           Inr (v\<lparr>m_imageCache :=
                    foldl (\<lambda>c t. cacheInsert (imageFileName t) (image t) c) (m_imageCache v) items,
                  updates := updates v @
                    (if intersects (viewportRect v) (unitedAll (tileRects v rows items))
                     then [unitedAll (tileRects v rows items)] else [])\<rparr>)"
    by (simp add: applyBatch_def applyItems_closed_form [OF m n] bindE_def unitedAll_def)
  show "\<forall>r \<in> set (tileRects v rows items).
            \<not> isNull r \<longrightarrow> contains (unitedAll (tileRects v rows items)) r"
    by (simp add: unitedAll_def foldl_united_contains_member)
  show "int (length items) \<le> maxCost (m_imageCache v) \<longrightarrow>
            (\<forall>t \<in> set items.
               cacheLookup (foldl (\<lambda>c t. cacheInsert (imageFileName t) (image t) c)
                              (m_imageCache v) items) (imageFileName t)
                 = batchImage items (imageFileName t))"
    by (simp add: foldl_cacheInsert_lookup)
qed

text \<open>The tiles 2, 3 and 7 of a grid of five columns: one update, of their bounding
  rectangle.\<close>

theorem batch_applied_with_one_update_witness:
  "applyBatch (gridView 5 500 200 0 (replicate 12 ''img''))
       [loaded 2 ''c'', loaded 3 ''d'', loaded 7 ''h''] =
     Inr ((gridView 5 500 200 0 (replicate 12 ''img''))
       \<lparr>m_imageCache := \<lparr>entries = [(''h'', Some (ImageData ''h'')), (''d'', Some (ImageData ''d'')),
                                     (''c'', Some (ImageData ''c''))], maxCost = 100\<rparr>,
        updates := [\<lparr>x1 = 200, y1 = 0, x2 = 399, y2 = 199\<rparr>]\<rparr>) \<and>
   contains \<lparr>x1 = 200, y1 = 0, x2 = 399, y2 = 199\<rparr> (mkQRect 200 100 100 100) \<and>
   cacheLookup \<lparr>entries = [(''h'', Some (ImageData ''h'')), (''d'', Some (ImageData ''d'')),
                            (''c'', Some (ImageData ''c''))], maxCost = 100\<rparr> ''d''
     = Some (Some (ImageData ''d''))"
proof -
  let ?v = "gridView 5 500 200 0 (replicate 12 ''img'')"
  let ?items = "[loaded 2 ''c'', loaded 3 ''d'', loaded 7 ''h'']"
  have m: "model ?v = Some (replicate 12 ''img'')" and n: "m_columnCount ?v \<noteq> 0"
    by (simp_all add: gridView_def)
  have t: "tileRects ?v (replicate 12 ''img'') ?items =
      [mkQRect 200 0 100 100, mkQRect 300 0 100 100, mkQRect 200 100 100 100]"
    by (simp add: tileRects_def loaded_def visualRect_def modelIndex_def rowCount_def gridView_def
        bindE_def cdiv_def cmod_def Let_def horizontalOffset_def verticalOffset_def
        signed_modulo_int_def)
  have u: "unitedAll [mkQRect 200 0 100 100, mkQRect 300 0 100 100, mkQRect 200 100 100 100]
      = \<lparr>x1 = 200, y1 = 0, x2 = 399, y2 = 199\<rparr>"
    by (simp add: unitedAll_def united_def nullQRect_def mkQRect_def isNull_def hspan_def vspan_def)
  have c: "foldl (\<lambda>c t. cacheInsert (imageFileName t) (image t) c) (m_imageCache ?v) ?items =
      \<lparr>entries = [(''h'', Some (ImageData ''h'')), (''d'', Some (ImageData ''d'')),
                  (''c'', Some (ImageData ''c''))], maxCost = 100\<rparr>"
    by (simp add: loaded_def gridView_def cacheInsert_def cacheRemove_def cacheTrim_def Let_def)
  have i: "intersects (viewportRect ?v) \<lparr>x1 = 200, y1 = 0, x2 = 399, y2 = 199\<rparr>"
    by (simp add: intersects_def viewportRect_def gridView_def mkQRect_def isNull_def hspan_def
        vspan_def)
  have nn: "\<not> isNull (mkQRect 200 100 100 100)" by (simp add: isNull_def mkQRect_def)
  have b: "batchImage ?items ''d'' = Some (Some (ImageData ''d''))"
    by (simp add: batchImage_def loaded_def)
  have l: "int (length ?items) \<le> maxCost (m_imageCache ?v)" by (simp add: gridView_def)
  from batch_applied_with_one_update [OF m n, of ?items] t u c i nn b l
  show ?thesis by (simp add: gridView_def loaded_def)
qed

section \<open>The snapshot\<close>

lemma map_of_remove:
  "map_of (filter (\<lambda>e. fst e \<noteq> k) es) k' = (if k' = k then None else map_of es k')"
  by (induction es) auto

lemma cacheLookup_remove:
  "cacheLookup (cacheRemove k c) k' = (if k' = k then None else cacheLookup c k')"
  by (simp add: cacheLookup_def cacheRemove_def map_of_remove)

lemma cacheContains_lookup: "cacheContains c k = (cacheLookup c k \<noteq> None)"
  by (simp add: cacheContains_def cacheLookup_def map_of_eq_None_iff)

lemma cacheTake_image: "fst (cacheTake k c) = cachedImage c k"
  by (simp add: cacheTake_def cachedImage_def cacheLookup_def split: option.split)

lemma cacheTake_lookup:
  "cacheLookup (snd (cacheTake k c)) k' = (if k' = k then None else cacheLookup c k')"
  by (auto simp add: cacheTake_def cacheLookup_remove split: option.split)
     (simp add: cacheLookup_def)

lemma cacheTake_maxCost [simp]: "maxCost (snd (cacheTake k c)) = maxCost c"
  by (simp add: cacheTake_def cacheRemove_def split: option.split)

lemma cachedImage_take:
  "cachedImage (snd (cacheTake k c)) k' = (if k' = k then None else cachedImage c k')"
  by (simp add: cachedImage_def cacheTake_lookup)

lemma buildTasks_Cons:
  "buildTasks rows (r # rs) c =
     (\<lparr>row = r, imageFileName = modelData rows (modelIndex rows r),
        image = fst (cacheTake (modelData rows (modelIndex rows r)) c)\<rparr>
        # fst (buildTasks rows rs (snd (cacheTake (modelData rows (modelIndex rows r)) c))),
      snd (buildTasks rows rs (snd (cacheTake (modelData rows (modelIndex rows r)) c))))"
  by (simp add: Let_def split: prod.split)

lemma buildTasks_rows:
  "map (\<lambda>t. (row t, imageFileName t)) (fst (buildTasks rows rs c))
     = map (\<lambda>r. (r, modelData rows (modelIndex rows r))) rs"
  by (induction rs arbitrary: c) (simp_all add: buildTasks_Cons del: buildTasks.simps(2))

lemma buildTasks_length [simp]: "length (fst (buildTasks rows rs c)) = length rs"
  by (induction rs arbitrary: c) (simp_all add: buildTasks_Cons del: buildTasks.simps(2))

lemma buildTasks_lookup:
  "cacheLookup (snd (buildTasks rows rs c)) k =
     (if k \<in> imageFileName ` set (fst (buildTasks rows rs c)) then None else cacheLookup c k)"
  by (induction rs arbitrary: c)
     (simp_all add: buildTasks_Cons cacheTake_lookup del: buildTasks.simps(2))

lemma buildTasks_maxCost [simp]: "maxCost (snd (buildTasks rows rs c)) = maxCost c"
  by (induction rs arbitrary: c) (simp_all add: buildTasks_Cons del: buildTasks.simps(2))

lemma buildTasks_images:
  assumes "i < length rs"
  shows "image (fst (buildTasks rows rs c) ! i) =
     (if imageFileName (fst (buildTasks rows rs c) ! i)
           \<in> imageFileName ` set (take i (fst (buildTasks rows rs c)))
      then None
      else cachedImage c (imageFileName (fst (buildTasks rows rs c) ! i)))"
  using assms
proof (induction rs arbitrary: c i)
  case Nil
  then show ?case by simp
next
  case (Cons r rs)
  let ?k = "modelData rows (modelIndex rows r)"
  let ?c1 = "snd (cacheTake ?k c)"
  show ?case
  proof (cases i)
    case 0
    then show ?thesis by (simp add: buildTasks_Cons cacheTake_image del: buildTasks.simps(2))
  next
    case (Suc j)
    then have j: "j < length rs" using Cons.prems by simp
    note ih = Cons.IH [OF j, of ?c1]
    show ?thesis
      using ih Suc
      by (simp add: buildTasks_Cons cachedImage_take del: buildTasks.simps(2))
  qed
qed

lemma range_within_model:
  assumes m: "model v = Some rows"
    and g: "1 \<le> m_columnCount v" "m_columnCount v \<le> viewportWidth v" "1 \<le> viewportHeight v"
  shows "\<exists>first last. modelIndexRangeForRect v rect = Inr (first, last) \<and>
           0 \<le> first \<and> last \<le> rowCount rows"
proof -
  obtain a where a: "linearIndexAt v (topLeft (normalized rect)) = Inr a"
    using linearIndexAt_returns [OF g] by blast
  obtain b where b: "linearIndexAt v (bottomRight (normalized rect)) = Inr b"
    using linearIndexAt_returns [OF g] by blast
  show ?thesis by (simp add: range_closed_form [OF m g a b])
qed

lemma decode_cases:
  "decode load t =
     (if image t = None \<or> image t = Some NullImage
      then (t\<lparr>image := Some (load (imageFileName t))\<rparr>, [imageFileName t])
      else (t, []))"
  by (cases "image t") (auto simp add: decode_def)

lemma snapshot_closed_form:
  assumes "model v = Some rows" "modelIndexRangeForRect v (viewportRect v) = Inr (lo, hi)"
  shows "snapshot v =
     Inr (fst (buildTasks rows [lo..hi - 1] (m_imageCache v)),
          v\<lparr>m_imageCache := snd (buildTasks rows [lo..hi - 1] (m_imageCache v))\<rparr>)"
  using assms by (simp add: snapshot_def bindE_def split: prod.split)



section \<open>Failed decodes\<close>

lemma applyBatch_closed_form:
  assumes m: "model v = Some rows" and n: "m_columnCount v \<noteq> 0"
  shows "applyBatch v items =
           Inr (v\<lparr>m_imageCache :=
                    foldl (\<lambda>c t. cacheInsert (imageFileName t) (image t) c) (m_imageCache v) items,
                  updates := updates v @
                    (if intersects (viewportRect v) (unitedAll (tileRects v rows items))
                     then [unitedAll (tileRects v rows items)] else [])\<rparr>)"
  by (simp add: applyBatch_def applyItems_closed_form [OF m n] bindE_def unitedAll_def)

lemma map_of_take_cases:
  "map_of (take n es) k = None \<or> map_of (take n es) k = map_of es k"
proof (induction es arbitrary: n)
  case Nil
  then show ?case by simp
next
  case (Cons e es)
  then show ?case by (cases n) auto
qed

lemma cacheInsert_lookup_same:
  "cacheLookup (cacheInsert k img c) k = (if 1 \<le> maxCost c then Some img else None)"
  by (simp add: cacheLookup_def cacheInsert_def cacheRemove_def cacheTrim_def Let_def map_of_remove)

lemma cacheInsert_lookup_other:
  assumes "k \<noteq> k'"
  shows "cacheLookup (cacheInsert k' img c) k = None \<or>
         cacheLookup (cacheInsert k' img c) k = cacheLookup c k"
proof (cases "1 \<le> maxCost c")
  case True
  show ?thesis
    using assms map_of_take_cases [of "nat (maxCost c - 1)" "filter (\<lambda>e. fst e \<noteq> k') (entries c)" k]
    by (simp add: cacheLookup_def cacheInsert_entries [OF True] map_of_remove)
next
  case False
  then show ?thesis using assms
    by (simp add: cacheLookup_def cacheInsert_def cacheRemove_def Let_def map_of_remove)
qed

lemma batchImage_snoc:
  "batchImage (items @ [t]) k = (if imageFileName t = k then Some (image t) else batchImage items k)"
  by (simp add: batchImage_def)

lemma foldl_cacheInsert_lookup_cases:
  assumes "k \<in> imageFileName ` set items"
  shows "cacheLookup (foldl (\<lambda>c t. cacheInsert (imageFileName t) (image t) c) c items) k = None \<or>
         cacheLookup (foldl (\<lambda>c t. cacheInsert (imageFileName t) (image t) c) c items) k
           = batchImage items k"
  using assms
proof (induction items rule: rev_induct)
  case Nil
  then show ?case by simp
next
  case (snoc t items)
  let ?c = "foldl (\<lambda>c t. cacheInsert (imageFileName t) (image t) c) c items"
  show ?case
  proof (cases "imageFileName t = k")
    case True
    then show ?thesis by (simp add: batchImage_snoc cacheInsert_lookup_same)
  next
    case False
    then have "k \<in> imageFileName ` set items" using snoc.prems by auto
    then have ih: "cacheLookup ?c k = None \<or> cacheLookup ?c k = batchImage items k"
      by (rule snoc.IH)
    have "cacheLookup (cacheInsert (imageFileName t) (image t) ?c) k = None \<or>
          cacheLookup (cacheInsert (imageFileName t) (image t) ?c) k = cacheLookup ?c k"
      using False by (intro cacheInsert_lookup_other) simp
    then show ?thesis using ih False by (auto simp add: batchImage_snoc)
  qed
qed

lemma batchImage_constant:
  assumes "k \<in> imageFileName ` set items"
    and "\<forall>t \<in> set items. imageFileName t = k \<longrightarrow> image t = x"
  shows "batchImage items k = Some x"
proof -
  have "k \<in> fst ` set (rev (map (\<lambda>t. (imageFileName t, image t)) items))"
    using assms(1) by force
  then obtain y where y: "map_of (rev (map (\<lambda>t. (imageFileName t, image t)) items)) k = Some y"
    by (metis domD dom_map_of_conv_image_fst)
  then have "(k, y) \<in> set (rev (map (\<lambda>t. (imageFileName t, image t)) items))"
    by (rule map_of_SomeD)
  then have "y = x" using assms(2) by auto
  then show ?thesis using y by (simp add: batchImage_def)
qed

lemma decode_keeps_key [simp]:
  "imageFileName (fst (decode load t)) = imageFileName t" "row (fst (decode load t)) = row t"
  by (simp_all add: decode_cases)

lemma cachedView_range:
  "modelIndexRangeForRect (cachedView es [''bad.png'']) (viewportRect (cachedView es [''bad.png'']))
     = Inr (0, 1)"
  by (simp add: cachedView_def gridView_def viewportRect_def mkQRect_def modelIndexRangeForRect_def
      normalized_def topLeft_def bottomRight_def indexAt_def linearIndexAt_def bindE_def cdiv_def
      modelIndex_def rowCount_def horizontalOffset_def verticalOffset_def Let_def)

text \<open>
  Claim C8 (as amended). Take a pass of the pipeline over a view with a model and a
  non-zero tile, a row \<open>i\<close> of the visible range whose file cannot be decoded, and a
  cache that holds nothing or a null image for that file. The pass returns (nothing is
  thrown), \<open>load\<close> is called on the file, and the null image is inserted under the file
  name: it is in the cache afterwards when the range is no longer than the cache's
  bound. In any case the cache again holds nothing or a null image for the file, so the
  same holds for the next pass: a failed decode is attempted again on every pass over its
  row.
\<close>

theorem failed_decode_is_cached_and_retried:
  assumes m: "model v = Some rows"
    and g: "1 \<le> m_columnCount v" "m_columnCount v \<le> viewportWidth v" "1 \<le> viewportHeight v"
    and r: "modelIndexRangeForRect v (viewportRect v) = Inr (lo, hi)"
    and i: "lo \<le> i" "i < hi"
    and f: "load (rows ! nat i) = NullImage"
    and c: "cachedImage (m_imageCache v) (rows ! nat i) = None \<or>
            cachedImage (m_imageCache v) (rows ! nat i) = Some NullImage"
  shows "\<exists>cache' updates' loads.
           loadPass load v = Inr (v\<lparr>m_imageCache := cache', updates := updates'\<rparr>, loads) \<and>
           rows ! nat i \<in> set loads \<and>
           (hi - lo \<le> maxCost (m_imageCache v) \<longrightarrow>
              cacheLookup cache' (rows ! nat i) = Some (Some NullImage)) \<and>
           (cachedImage cache' (rows ! nat i) = None \<or>
            cachedImage cache' (rows ! nat i) = Some NullImage)"
proof -
  let ?k = "rows ! nat i"
  let ?b = "buildTasks rows [lo..hi - 1] (m_imageCache v)"
  let ?ts = "fst ?b" and ?c1 = "snd ?b"
  let ?v1 = "v\<lparr>m_imageCache := ?c1\<rparr>"
  let ?items = "map (\<lambda>t. fst (decode load t)) ?ts"
  let ?loads = "concat (map (\<lambda>t. snd (decode load t)) ?ts)"
  let ?ins = "\<lambda>c t. cacheInsert (imageFileName t) (image t) c"
  let ?c2 = "foldl ?ins ?c1 ?items"
  let ?u = "updates v @ (if intersects (viewportRect v) (unitedAll (tileRects v rows ?items))
                          then [unitedAll (tileRects v rows ?items)] else [])"
  have bd: "0 \<le> lo" "hi \<le> rowCount rows"
    using range_within_model [OF m g, of "viewportRect v"] r by auto
  have iv: "0 \<le> i" "i < rowCount rows" using i bd by linarith+
  have ki: "modelData rows (modelIndex rows i) = ?k"
    using iv by (simp add: modelData_def modelIndex_def)
  have rk: "map (\<lambda>t. (row t, imageFileName t)) ?ts
      = map (\<lambda>r. (r, modelData rows (modelIndex rows r))) [lo..hi - 1]"
    by (rule buildTasks_rows)
  have "(i, ?k) \<in> set (map (\<lambda>r. (r, modelData rows (modelIndex rows r))) [lo..hi - 1])"
    using i ki by force
  then have "(i, ?k) \<in> set (map (\<lambda>t. (row t, imageFileName t)) ?ts)" by (simp only: rk)
  then obtain t0 where t0: "t0 \<in> set ?ts" "imageFileName t0 = ?k" by auto
  have failing: "decode load t = (t\<lparr>image := Some NullImage\<rparr>, [?k])"
    if t: "t \<in> set ?ts" "imageFileName t = ?k" for t
  proof -
    obtain j where j: "j < length ?ts" "?ts ! j = t" using t(1) by (auto simp add: in_set_conv_nth)
    then have "j < length [lo..hi - 1]" by simp
    from buildTasks_images [OF this, of rows "m_imageCache v"] j t(2) c
    have "image t = None \<or> image t = Some NullImage" by (auto split: if_splits)
    then show ?thesis using t(2) f by (simp add: decode_cases)
  qed
  have loads: "?k \<in> set ?loads" using t0 failing [OF t0] by force
  have keys: "?k \<in> imageFileName ` set ?items" using t0 by force
  have null: "\<forall>u \<in> set ?items. imageFileName u = ?k \<longrightarrow> image u = Some NullImage"
    using failing by auto
  have bi: "batchImage ?items ?k = Some (Some NullImage)"
    using keys null by (rule batchImage_constant)
  have ne: "?items \<noteq> []" using t0 by auto
  have ab: "applyBatch ?v1 ?items = Inr (v\<lparr>m_imageCache := ?c2, updates := ?u\<rparr>)"
    using applyBatch_closed_form [of ?v1 rows ?items] m g by simp
  have lp: "loadPass load v = Inr (v\<lparr>m_imageCache := ?c2, updates := ?u\<rparr>, ?loads)"
    using ne ab
    by (simp add: loadPass_def snapshot_closed_form [OF m r] bindE_def decodeAll_def onBuffer_def)
  have len: "int (length ?items) = hi - lo" using i by simp
  have fits: "cacheLookup ?c2 ?k = Some (Some NullImage)" if "hi - lo \<le> maxCost (m_imageCache v)"
  proof -
    have u: "fst (decode load t0) \<in> set ?items" "imageFileName (fst (decode load t0)) = ?k"
      using t0 by simp_all
    have "int (length ?items) \<le> maxCost ?c1" using that len by simp
    from foldl_cacheInsert_lookup [OF this u(1)] u(2) bi show ?thesis by simp
  qed
  have "cacheLookup ?c2 ?k = None \<or> cacheLookup ?c2 ?k = batchImage ?items ?k"
    using keys by (rule foldl_cacheInsert_lookup_cases)
  then have after: "cachedImage ?c2 ?k = None \<or> cachedImage ?c2 ?k = Some NullImage"
    using bi by (auto simp add: cachedImage_def)
  show ?thesis
    using lp loads fits after by blast
qed

theorem failed_decode_is_cached_and_retried_witness:
  "\<exists>cache' updates' loads.
     loadPass noFiles (cachedView [(''bad.png'', Some NullImage)] [''bad.png'']) =
       Inr ((cachedView [(''bad.png'', Some NullImage)] [''bad.png''])
              \<lparr>m_imageCache := cache', updates := updates'\<rparr>, loads) \<and>
     ''bad.png'' \<in> set loads \<and>
     cacheLookup cache' ''bad.png'' = Some (Some NullImage)"
proof -
  let ?v = "cachedView [(''bad.png'', Some NullImage)] [''bad.png'']"
  have m: "model ?v = Some [''bad.png'']"
    and g: "1 \<le> m_columnCount ?v" "m_columnCount ?v \<le> viewportWidth ?v" "1 \<le> viewportHeight ?v"
    by (simp_all add: cachedView_def gridView_def)
  have r: "modelIndexRangeForRect ?v (viewportRect ?v) = Inr (0, 1)" by (rule cachedView_range)
  have f: "noFiles ([''bad.png''] ! nat 0) = NullImage" by (simp add: noFiles_def)
  have c: "cachedImage (m_imageCache ?v) ([''bad.png''] ! nat 0) = None \<or>
           cachedImage (m_imageCache ?v) ([''bad.png''] ! nat 0) = Some NullImage"
    by (simp add: cachedImage_def cacheLookup_def cachedView_def)
  have s: "1 - 0 \<le> maxCost (m_imageCache ?v)" by (simp add: cachedView_def)
  have i: "(0::int) \<le> 0" "(0::int) < 1" by simp_all
  from failed_decode_is_cached_and_retried
         [where v = ?v and rows = "[''bad.png'']" and lo = 0 and hi = 1 and i = 0
            and load = noFiles, OF m g r i f c] s
  show ?thesis by simp blast
qed

text \<open>The claim's last part fails: the second pass over a file that cannot be decoded
  finds the null image in the cache and calls \<open>load\<close> on the file again.\<close>

theorem failed_decode_counterexample:
  "loadPass noFiles (cachedView [] [''bad.png'']) =
     Inr ((cachedView [(''bad.png'', Some NullImage)] [''bad.png''])
            \<lparr>updates := [mkQRect 0 0 100 100]\<rparr>, [''bad.png'']) \<and>
   loadPass noFiles ((cachedView [(''bad.png'', Some NullImage)] [''bad.png''])
            \<lparr>updates := [mkQRect 0 0 100 100]\<rparr>) =
     Inr ((cachedView [(''bad.png'', Some NullImage)] [''bad.png''])
            \<lparr>updates := [mkQRect 0 0 100 100, mkQRect 0 0 100 100]\<rparr>, [''bad.png''])"
  by (simp add: loadPass_def snapshot_def decodeAll_def decode_def onBuffer_def applyBatch_def
      noFiles_def cachedView_def gridView_def viewportRect_def mkQRect_def
      modelIndexRangeForRect_def normalized_def topLeft_def bottomRight_def indexAt_def
      linearIndexAt_def bindE_def cdiv_def cmod_def modelIndex_def modelData_def rowCount_def
      horizontalOffset_def verticalOffset_def Let_def cacheTake_def cacheRemove_def
      cacheInsert_def cacheTrim_def visualRect_def united_def intersects_def isNull_def
      nullQRect_def hspan_def vspan_def)

end
